theory Spec2Isabelle
  imports Main
begin

section \<open>Python lists\<close>

text \<open>
  The program is a Python script. Its lists are indexed with Python integers: a negative
  index counts from the end of the list, and an index outside \<open>[-len, len)\<close> raises
  \<open>IndexError\<close>, on a read as on a write.
\<close>

datatype py_error = IndexError

definition py_index :: "nat \<Rightarrow> int \<Rightarrow> nat option" where
  "py_index n i =
     (if 0 \<le> i \<and> i < int n then Some (nat i)
      else if - int n \<le> i \<and> i < 0 then Some (nat (i + int n))
      else None)"

definition getitem :: "'a list \<Rightarrow> int \<Rightarrow> py_error + 'a" where
  "getitem xs i =
     (case py_index (length xs) i of
        None \<Rightarrow> Inl IndexError
      | Some j \<Rightarrow> Inr (xs ! j))"

definition setitem :: "'a list \<Rightarrow> int \<Rightarrow> 'a \<Rightarrow> py_error + 'a list" where
  "setitem xs i v =
     (case py_index (length xs) i of
        None \<Rightarrow> Inl IndexError
      | Some j \<Rightarrow> Inr (xs[j := v]))"

section \<open>Constants of the script\<close>

definition ABSOLUTE_PATH :: string where
  "ABSOLUTE_PATH = ''/home/pi/rustafari_radio_noserver/''"

definition NOISE_FILE :: string where
  "NOISE_FILE = ABSOLUTE_PATH @ ''rauschen.mp3''"

definition MIN_POS :: int where
  "MIN_POS = 0"

definition MAX_POS :: int where
  "MAX_POS = 1020"

section \<open>The station list\<close>

text \<open>
  A line of \<open>playlist.csv\<close> is a list of strings. \<open>read_csv\<close> replaces the first two
  columns by integers, so a row of the station list is \<open>[int, int, str, ...]\<close>:
  \<open>col0\<close> is \<open>row[0]\<close> (the lower boundary), \<open>col1\<close> is \<open>row[1]\<close> (the upper boundary)
  and \<open>more_cols\<close> holds the columns from \<open>row[2]\<close> on. Nothing in the script checks that a
  line has a third column.
\<close>

record station =
  col0 :: int
  col1 :: int
  more_cols :: "string list"

text \<open>\<open>row[2]\<close>, the stream url of a row; \<open>IndexError\<close> on a row of two columns.\<close>

definition col2 :: "station \<Rightarrow> py_error + string" where
  "col2 row = getitem (more_cols row) 0"

text \<open>
  \<open>exit()\<close> after a message is modelled as an error value. The three messages of the
  script are told apart:
  \<^item> \<open>MalformedBoundary row\<close>: \<^verbatim>\<open>Error in csv file line {row}: boundary values must be integers\<close>
  \<^item> \<open>InvertedBoundary i\<close>: \<^verbatim>\<open>Error in csv file line {i}: check boundaries\<close>
  \<^item> \<open>OverlappingRange i j\<close>: \<^verbatim>\<open>Error in csv file line {i} / {i + 1}: check boundaries\<close>
\<close>

datatype load_error =
    MalformedBoundary "string list"
  | InvertedBoundary nat
  | OverlappingRange nat nat

text \<open>
  The body of the \<open>try\<close> in \<open>read_csv\<close>: \<open>row[0] = int(row[0]); row[1] = int(row[1])\<close>.
  The bare \<open>except\<close> catches the \<open>ValueError\<close> of \<open>int\<close> and the \<open>IndexError\<close> of a line
  with fewer than two columns alike. Python's \<open>int\<close> on a string is the parameter
  \<open>to_int\<close>, \<open>None\<close> where \<open>int\<close> raises.
\<close>

definition convert_row :: "(string \<Rightarrow> int option) \<Rightarrow> string list \<Rightarrow> station option" where
  "convert_row to_int row =
     (case row of
        a # b # cs \<Rightarrow>
          (case to_int a of
             None \<Rightarrow> None
           | Some l \<Rightarrow>
               (case to_int b of
                  None \<Rightarrow> None
                | Some u \<Rightarrow> Some \<lparr>col0 = l, col1 = u, more_cols = cs\<rparr>))
      | _ \<Rightarrow> None)"

text \<open>The loop \<open>for row in playlist\<close>: the first line that does not convert ends the run.\<close>

fun read_rows :: "(string \<Rightarrow> int option) \<Rightarrow> string list list \<Rightarrow> load_error + station list" where
  "read_rows to_int [] = Inr []"
| "read_rows to_int (row # playlist) =
     (case convert_row to_int row of
        None \<Rightarrow> Inl (MalformedBoundary row)
      | Some s \<Rightarrow>
          (case read_rows to_int playlist of
             Inl e \<Rightarrow> Inl e
           | Inr stations \<Rightarrow> Inr (s # stations)))"

text \<open>
  \<open>csv_sanity_check\<close>: the loop \<open>for i in range(0, len(stations) - 1)\<close>. At every \<open>i\<close>
  the boundaries of row \<open>i\<close> are compared first, then row \<open>i\<close> with row \<open>i + 1\<close>.
  \<open>None\<close> is the normal return.
\<close>

fun check_lines :: "station list \<Rightarrow> nat list \<Rightarrow> load_error option" where
  "check_lines stations [] = None"
| "check_lines stations (i # is) =
     (if col0 (stations ! i) > col1 (stations ! i) then Some (InvertedBoundary i)
      else if col1 (stations ! i) \<ge> col0 (stations ! (i + 1)) then Some (OverlappingRange i (i + 1))
      else check_lines stations is)"

definition csv_sanity_check :: "station list \<Rightarrow> load_error option" where
  "csv_sanity_check stations = check_lines stations [0 ..< length stations - 1]"

definition noise_entry :: station where
  "noise_entry = \<lparr>col0 = - 1, col1 = - 1, more_cols = [NOISE_FILE]\<rparr>"

definition read_csv :: "(string \<Rightarrow> int option) \<Rightarrow> string list list \<Rightarrow> load_error + station list" where
  "read_csv to_int playlist =
     (case read_rows to_int playlist of
        Inl e \<Rightarrow> Inl e
      | Inr stations \<Rightarrow>
          (case csv_sanity_check stations of
             Some e \<Rightarrow> Inl e
           | None \<Rightarrow> Inr (stations @ [noise_entry])))"

section \<open>The position table\<close>

text \<open>
  \<open>populate_postostation\<close>. The inner loop \<open>for p in range(low, upp + 1)\<close> writes
  \<open>pos2station[p] = line_nr\<close> with the position as it comes from the csv file, so the
  write follows Python's indexing: it raises beyond the end of the list and wraps to the
  end of the list for a negative position.
\<close>

fun assign_positions :: "int list \<Rightarrow> int list \<Rightarrow> int \<Rightarrow> py_error + int list" where
  "assign_positions pos2station [] line_nr = Inr pos2station"
| "assign_positions pos2station (p # ps) line_nr =
     (case setitem pos2station p line_nr of
        Inl e \<Rightarrow> Inl e
      | Inr pos2station' \<Rightarrow> assign_positions pos2station' ps line_nr)"

text \<open>The outer loop \<open>for line_nr in range(l - 1)\<close>.\<close>

fun assign_lines :: "station list \<Rightarrow> int list \<Rightarrow> nat list \<Rightarrow> py_error + int list" where
  "assign_lines sl pos2station [] = Inr pos2station"
| "assign_lines sl pos2station (line_nr # lines) =
     (case getitem sl (int line_nr) of
        Inl e \<Rightarrow> Inl e
      | Inr row \<Rightarrow>
          (let low = col0 row; upp = col1 row
           in case assign_positions pos2station [low .. upp] (int line_nr) of
                Inl e \<Rightarrow> Inl e
              | Inr pos2station' \<Rightarrow> assign_lines sl pos2station' lines))"

definition populate_postostation :: "station list \<Rightarrow> py_error + int list" where
  "populate_postostation sl =
     (let pos2station = map (\<lambda>_. - 1) [MIN_POS .. MAX_POS];
          l = length sl
      in assign_lines sl pos2station [0 ..< l - 1])"

text \<open>The positions \<open>range(low, upp + 1)\<close> of a row.\<close>

definition in_range :: "station \<Rightarrow> int \<Rightarrow> bool" where
  "in_range row p \<longleftrightarrow> col0 row \<le> p \<and> p \<le> col1 row"

section \<open>The player and the position file\<close>

text \<open>
  The calls made on the VLC player, in the order they are made. \<open>SetMedia url\<close> stands
  for \<open>player.set_media(instance.media_new(url))\<close>.
\<close>

datatype player_call = Stop | SetMedia string | Play

text \<open>
  The globals of the script that the callbacks read and write, the calls received by the
  player so far (oldest first) and the text of the file \<open>position.py\<close>.
\<close>

record radio =
  pos :: int
  station_list :: "station list"
  posToStation :: "int list"
  player :: "player_call list"
  position_py :: string

definition play :: "string \<Rightarrow> radio \<Rightarrow> radio" where
  "play url st = st\<lparr>player := player st @ [Stop, SetMedia url, Play]\<rparr>"

text \<open>Python's \<open>str\<close> on an integer: decimal digits, a minus sign when negative.\<close>

definition digit_char :: "nat \<Rightarrow> char" where
  "digit_char d = char_of (48 + d)"

fun digits_of :: "nat \<Rightarrow> string" where
  "digits_of n = (if n < 10 then [digit_char n] else digits_of (n div 10) @ [digit_char (n mod 10)])"

declare digits_of.simps [simp del]

definition str_int :: "int \<Rightarrow> string" where
  "str_int i = (if i < 0 then CHR ''-'' # digits_of (nat (- i)) else digits_of (nat i))"

text \<open>\<open>write_position_files\<close> opens the file with mode \<open>"w"\<close>: the old text is gone.\<close>

definition write_position_files :: "radio \<Rightarrow> radio" where
  "write_position_files st =
     st\<lparr>position_py := ''#!/usr/bin/env python\<newline>\<newline>'' @ ''start_position = '' @ str_int (pos st)\<rparr>"

section \<open>The encoder callback\<close>

text \<open>
  The expression \<open>station_list[posToStation[pos]]\<close> of lines 111 and 163: the row of the
  station list selected for a position. The cell \<open>-1\<close> selects the last row.
\<close>

definition selected_station :: "station list \<Rightarrow> int list \<Rightarrow> int \<Rightarrow> py_error + station" where
  "selected_station sl cells p =
     (case getitem cells p of
        Inl e \<Rightarrow> Inl e
      | Inr k \<Rightarrow> getitem sl k)"

text \<open>
  Lines 106 and 107 of the script: the step that is applied, \<open>0\<close> at the two ends of the
  scale.
\<close>

definition effective_way :: "int \<Rightarrow> int \<Rightarrow> int" where
  "effective_way p way =
     (if (p \<ge> MAX_POS \<and> way = 1) \<or> (p \<le> MIN_POS \<and> way = - 1) then 0 else way)"

text \<open>
  \<open>callback_rotary_encoder\<close>. An exception leaves the globals as they are at the moment
  it is raised, so the result is the exception, if any, and the state: \<open>pos\<close> is already
  moved when the look-up of the new station fails.
\<close>

definition callback_rotary_encoder :: "int \<Rightarrow> radio \<Rightarrow> py_error option \<times> radio" where
  "callback_rotary_encoder way0 st =
     (let way = effective_way (pos st) way0
      in case getitem (posToStation st) (pos st) of
           Inl e \<Rightarrow> (Some e, st)
         | Inr old \<Rightarrow>
             (case getitem (posToStation st) (pos st + way) of
                Inl e \<Rightarrow> (Some e, st)
              | Inr new \<Rightarrow>
                  if old \<noteq> new then
                    (let st1 = st\<lparr>pos := pos st + way\<rparr>
                     in case selected_station (station_list st1) (posToStation st1) (pos st1) of
                          Inl e \<Rightarrow> (Some e, st1)
                        | Inr row \<Rightarrow>
                            (case col2 row of
                               Inl e \<Rightarrow> (Some e, st1)
                             | Inr url \<Rightarrow> (None, write_position_files (play url st1))))
                  else (None, write_position_files (st\<lparr>pos := pos st + way\<rparr>))))"

text \<open>
  A run of encoder steps. The decoder of \<open>rotary_encoder.py\<close> (not among the sources)
  calls the callback once for each step; the run is followed up to the first exception.
\<close>

fun encoder_steps :: "int list \<Rightarrow> radio \<Rightarrow> py_error option \<times> radio" where
  "encoder_steps [] st = (None, st)"
| "encoder_steps (way # ways) st =
     (case callback_rotary_encoder way st of
        (Some e, st') \<Rightarrow> (Some e, st')
      | (None, st') \<Rightarrow> encoder_steps ways st')"

text \<open>
  The state after the start of the script (lines 145 and 148): \<open>station_list\<close> is what
  \<open>read_csv\<close> returned for the lines of the csv file and \<open>posToStation\<close> what
  \<open>populate_postostation\<close> returned for it.
\<close>

definition started :: "(string \<Rightarrow> int option) \<Rightarrow> string list list \<Rightarrow> radio \<Rightarrow> bool" where
  "started to_int playlist st \<longleftrightarrow>
     read_csv to_int playlist = Inr (station_list st) \<and>
     populate_postostation (station_list st) = Inr (posToStation st)"

section \<open>Reading the position back\<close>

text \<open>
  A decimal token: an optional minus sign and one or more digits, read in base ten. On
  such a token Python's \<open>int\<close> returns this number.
\<close>

definition is_digit :: "char \<Rightarrow> bool" where
  "is_digit c \<longleftrightarrow> 48 \<le> (of_char c :: nat) \<and> (of_char c :: nat) \<le> 57"

fun digits_value :: "nat \<Rightarrow> string \<Rightarrow> nat" where
  "digits_value acc [] = acc"
| "digits_value acc (c # cs) = digits_value (10 * acc + (of_char c - 48)) cs"

definition decimal_nat :: "string \<Rightarrow> nat option" where
  "decimal_nat s = (if s \<noteq> [] \<and> list_all is_digit s then Some (digits_value 0 s) else None)"

definition decimal :: "string \<Rightarrow> int option" where
  "decimal s =
     (case s of
        [] \<Rightarrow> None
      | c # cs \<Rightarrow>
          if c = CHR ''-'' then map_option (\<lambda>n. - int n) (decimal_nat cs)
          else map_option int (decimal_nat s))"

fun strip_prefix :: "string \<Rightarrow> string \<Rightarrow> string option" where
  "strip_prefix [] s = Some s"
| "strip_prefix (c # cs) [] = None"
| "strip_prefix (c # cs) (d # ds) = (if c = d then strip_prefix cs ds else None)"

text \<open>
  Modelled from the spec: the module \<open>position.py\<close> is not among the sources; the
  script only imports \<open>start_position\<close> from it (line 24) and rewrites it. Following
  PositionStore.load ("returns the previously saved integer", "in a format re-readable
  as a single starting value on next boot"), the import of a file of the shape that
  \<open>write_position_files\<close> writes binds \<open>start_position\<close> to the integer after
  \<open>start_position = \<close>, written as \<open>str\<close> writes it. Any other text is not modelled
  (\<open>None\<close>).
\<close>

definition start_position :: "string \<Rightarrow> int option" where
  "start_position text =
     (case strip_prefix (''#!/usr/bin/env python\<newline>\<newline>'' @ ''start_position = '') text of
        None \<Rightarrow> None
      | Some literal \<Rightarrow>
          (case decimal literal of
             None \<Rightarrow> None
           | Some i \<Rightarrow> if str_int i = literal then Some i else None))"

section \<open>The scenario of the specification\<close>

text \<open>
  The csv file with the two rows \<open>0,99,A\<close> and \<open>100,199,B\<close>, the station list that
  \<open>read_csv\<close> returns for it and the position table of that list. \<open>decimal\<close> stands for
  Python's \<open>int\<close>, with which it agrees on these tokens.
\<close>

definition demo_playlist :: "string list list" where
  "demo_playlist = [[''0'', ''99'', ''A''], [''100'', ''199'', ''B'']]"

definition demo_stations :: "station list" where
  "demo_stations =
     [\<lparr>col0 = 0, col1 = 99, more_cols = [''A'']\<rparr>,
      \<lparr>col0 = 100, col1 = 199, more_cols = [''B'']\<rparr>,
      noise_entry]"

definition demo_cells :: "int list" where
  "demo_cells = replicate 100 0 @ replicate 100 1 @ replicate 821 (- 1)"

definition demo_radio :: "int \<Rightarrow> radio" where
  "demo_radio p =
     \<lparr>pos = p, station_list = demo_stations, posToStation = demo_cells,
      player = [], position_py = []\<rparr>"

section \<open>Python list indexing: basic facts\<close>

lemma getitem_nat: "i < length xs \<Longrightarrow> getitem xs (int i) = Inr (xs ! i)"
  by (simp add: getitem_def py_index_def)

lemma getitem_in_range: "0 \<le> p \<Longrightarrow> p < int (length xs) \<Longrightarrow> getitem xs p = Inr (xs ! nat p)"
  by (simp add: getitem_def py_index_def)

lemma getitem_minus_one: "xs \<noteq> [] \<Longrightarrow> getitem xs (- 1) = Inr (last xs)"
  by (cases xs rule: rev_cases) (auto simp: getitem_def py_index_def nth_append)

lemma setitem_in_range:
  "0 \<le> p \<Longrightarrow> p < int (length xs) \<Longrightarrow> setitem xs p v = Inr (xs[nat p := v])"
  by (simp add: setitem_def py_index_def)

lemma setitem_Inr:
  "setitem xs p v = Inr ys \<Longrightarrow> length ys = length xs \<and> set ys \<subseteq> insert v (set xs)"
  using set_update_subset_insert[of xs _ v]
  by (auto simp: setitem_def split: option.splits)

section \<open>The consistency check of the csv file\<close>

lemma upt_split_at: "i < n \<Longrightarrow> [0 ..< n] = [0 ..< i] @ i # [Suc i ..< n]"
  by (metis less_imp_le_nat upt_add_eq_append upt_conv_Cons le0 le_add_diff_inverse)

lemma check_lines_append:
  "check_lines stations (xs @ ys) =
     (case check_lines stations xs of None \<Rightarrow> check_lines stations ys | Some e \<Rightarrow> Some e)"
  by (induction xs) auto

lemma check_lines_None_iff:
  "check_lines stations xs = None \<longleftrightarrow>
     (\<forall>i\<in>set xs. col0 (stations ! i) \<le> col1 (stations ! i) \<and> col1 (stations ! i) < col0 (stations ! Suc i))"
  by (induction xs) auto

lemma check_lines_Some:
  "check_lines stations xs = Some e \<Longrightarrow>
     \<exists>i\<in>set xs. (e = InvertedBoundary i \<and> col1 (stations ! i) < col0 (stations ! i)) \<or>
                 (e = OverlappingRange i (Suc i) \<and> col0 (stations ! Suc i) \<le> col1 (stations ! i))"
  by (induction xs) (auto split: if_splits)

text \<open>
  What the check accepts: every row but the last has its boundaries in order and ends
  strictly below the start of the next row. The last row is compared with nothing.
\<close>

lemma csv_sanity_check_None_iff:
  "csv_sanity_check stations = None \<longleftrightarrow>
     (\<forall>i. Suc i < length stations \<longrightarrow>
        col0 (stations ! i) \<le> col1 (stations ! i) \<and> col1 (stations ! i) < col0 (stations ! Suc i))"
  unfolding csv_sanity_check_def check_lines_None_iff by auto

lemma check_lines_first:
  assumes "\<forall>j<i. col0 (stations ! j) \<le> col1 (stations ! j) \<and> col1 (stations ! j) < col0 (stations ! Suc j)"
    and "i < n"
  shows "check_lines stations [0 ..< n] = check_lines stations (i # [Suc i ..< n])"
proof -
  have "[0 ..< n] = [0 ..< i] @ i # [Suc i ..< n]"
    using assms(2) by (rule upt_split_at)
  moreover have "check_lines stations [0 ..< i] = None"
    using assms(1) by (simp add: check_lines_None_iff)
  ultimately show ?thesis by (simp add: check_lines_append)
qed

lemma read_csv_Inr_iff:
  "read_csv to_int playlist = Inr sl \<longleftrightarrow>
     (\<exists>stations. read_rows to_int playlist = Inr stations \<and> csv_sanity_check stations = None \<and>
        sl = stations @ [noise_entry])"
  by (auto simp: read_csv_def split: sum.splits option.splits)

text \<open>
  A station list that \<open>read_csv\<close> returns: between two rows of the csv file that follow
  each other the inequality is strict, and every row of the file but its last has its
  boundaries in order.
\<close>

lemma read_csv_accepted:
  assumes "read_csv to_int playlist = Inr sl" and "Suc i < length sl - 1"
  shows "col0 (sl ! i) \<le> col1 (sl ! i) \<and> col1 (sl ! i) < col0 (sl ! Suc i)"
proof -
  from assms(1) obtain stations where
    st: "csv_sanity_check stations = None" "sl = stations @ [noise_entry]"
    by (auto simp: read_csv_Inr_iff)
  from assms(2) st(2) have i: "Suc i < length stations" by simp
  with st(1) have "col0 (stations ! i) \<le> col1 (stations ! i) \<and>
      col1 (stations ! i) < col0 (stations ! Suc i)"
    by (simp add: csv_sanity_check_None_iff)
  with i st(2) show ?thesis by (simp add: nth_append)
qed

text \<open>
  Claim C3, as the script has it. A csv file whose rows all convert and in which row
  \<open>i + 1\<close> starts at or below the end of row \<open>i\<close> (touching included) is rejected by
  \<open>read_csv\<close>. The message is that of the first comparison that fails, in the order of
  the loop: it names a row \<open>j \<le> i\<close> with its boundaries out of order, or a pair
  \<open>j, j + 1\<close> with \<open>j \<le> i\<close> that overlaps. It is the overlap message for the pair
  \<open>i, i + 1\<close> itself when no comparison fails before row \<open>i\<close> and row \<open>i\<close> has its
  boundaries in order.
\<close>

theorem read_csv_rejects_overlap:
  assumes "read_rows to_int playlist = Inr stations"
    and "Suc i < length stations"
    and "col0 (stations ! Suc i) \<le> col1 (stations ! i)"
  shows "(\<exists>e j. read_csv to_int playlist = Inl e \<and> j \<le> i \<and>
            (e = InvertedBoundary j \<and> col1 (stations ! j) < col0 (stations ! j) \<or>
             e = OverlappingRange j (Suc j) \<and> col0 (stations ! Suc j) \<le> col1 (stations ! j))) \<and>
         ((\<forall>j<i. col0 (stations ! j) \<le> col1 (stations ! j) \<and>
                  col1 (stations ! j) < col0 (stations ! Suc j)) \<and>
            col0 (stations ! i) \<le> col1 (stations ! i) \<longrightarrow>
          read_csv to_int playlist = Inl (OverlappingRange i (Suc i)))"
proof (intro conjI impI)
  let ?n = "length stations - 1"
  have i: "i < ?n" using assms(2) by simp
  have split: "[0 ..< ?n] = [0 ..< Suc i] @ [Suc i ..< ?n]"
    using upt_split_at[OF i] by simp
  have bad: "check_lines stations [0 ..< Suc i] \<noteq> None"
    using assms(3) by (auto simp: check_lines_None_iff)
  then obtain e where e: "check_lines stations [0 ..< Suc i] = Some e" by auto
  have "check_lines stations ([0 ..< Suc i] @ [Suc i ..< ?n]) = Some e"
    unfolding check_lines_append e by simp
  then have chk: "csv_sanity_check stations = Some e"
    unfolding csv_sanity_check_def by (metis split)
  from check_lines_Some[OF e] obtain j where
    "j < Suc i"
    "(e = InvertedBoundary j \<and> col1 (stations ! j) < col0 (stations ! j)) \<or>
     (e = OverlappingRange j (Suc j) \<and> col0 (stations ! Suc j) \<le> col1 (stations ! j))"
    by auto
  moreover have "read_csv to_int playlist = Inl e"
    using assms(1) chk by (simp add: read_csv_def)
  ultimately show "\<exists>e j. read_csv to_int playlist = Inl e \<and> j \<le> i \<and>
            (e = InvertedBoundary j \<and> col1 (stations ! j) < col0 (stations ! j) \<or>
             e = OverlappingRange j (Suc j) \<and> col0 (stations ! Suc j) \<le> col1 (stations ! j))"
    by (metis less_Suc_eq_le)
next
  assume a: "(\<forall>j<i. col0 (stations ! j) \<le> col1 (stations ! j) \<and>
                  col1 (stations ! j) < col0 (stations ! Suc j)) \<and>
            col0 (stations ! i) \<le> col1 (stations ! i)"
  have i: "i < length stations - 1" using assms(2) by simp
  have "csv_sanity_check stations = Some (OverlappingRange i (Suc i))"
    unfolding csv_sanity_check_def using check_lines_first[OF conjunct1[OF a] i] a assms(3)
    by simp
  then show "read_csv to_int playlist = Inl (OverlappingRange i (Suc i))"
    using assms(1) by (simp add: read_csv_def)
qed

text \<open>
  The scenario of the specification: the rows \<open>(0, 50, A)\<close> and \<open>(40, 90, B)\<close> are
  rejected with the overlap message for rows 0 and 1.
\<close>

theorem read_csv_rejects_overlap_witness:
  "read_rows decimal [[''0'', ''50'', ''A''], [''40'', ''90'', ''B'']] =
     Inr [\<lparr>col0 = 0, col1 = 50, more_cols = [''A'']\<rparr>, \<lparr>col0 = 40, col1 = 90, more_cols = [''B'']\<rparr>] \<and>
   read_csv decimal [[''0'', ''50'', ''A''], [''40'', ''90'', ''B'']] = Inl (OverlappingRange 0 (Suc 0))"
proof -
  let ?stations = "[\<lparr>col0 = 0, col1 = 50, more_cols = [''A'']\<rparr>, \<lparr>col0 = 40, col1 = 90, more_cols = [''B'']\<rparr>]"
  have h1: "read_rows decimal [[''0'', ''50'', ''A''], [''40'', ''90'', ''B'']] = Inr ?stations"
    by (simp add: convert_row_def decimal_def decimal_nat_def is_digit_def)
  have h2: "Suc 0 < length ?stations" by simp
  have h3: "col0 (?stations ! Suc 0) \<le> col1 (?stations ! 0)" by simp
  show ?thesis
    using h1 read_csv_rejects_overlap [OF h1 h2 h3] by simp
qed

text \<open>
  Against C3 as it is written (every such file is rejected with the overlap message for
  the pair): in the file \<open>(50, 10, A)\<close>, \<open>(5, 20, B)\<close> row 1 starts below the end of
  row 0, and the run ends on the message for the boundaries of row 0, which is the
  comparison that the loop makes first.
\<close>

theorem overlap_reported_as_inverted:
  "col0 \<lparr>col0 = 5, col1 = 20, more_cols = [''B'']\<rparr> \<le> col1 \<lparr>col0 = 50, col1 = 10, more_cols = [''A'']\<rparr> \<and>
   read_rows decimal [[''50'', ''10'', ''A''], [''5'', ''20'', ''B'']] =
     Inr [\<lparr>col0 = 50, col1 = 10, more_cols = [''A'']\<rparr>, \<lparr>col0 = 5, col1 = 20, more_cols = [''B'']\<rparr>] \<and>
   read_csv decimal [[''50'', ''10'', ''A''], [''5'', ''20'', ''B'']] = Inl (InvertedBoundary 0) \<and>
   read_csv decimal [[''50'', ''10'', ''A''], [''5'', ''20'', ''B'']] \<noteq> Inl (OverlappingRange 0 1)"
  by (simp add: read_csv_def convert_row_def decimal_def decimal_nat_def is_digit_def
      csv_sanity_check_def)

text \<open>
  Claim C4 at the csv file with the single row \<open>(50, 10, A)\<close>: the lower boundary is
  above the upper one, and \<open>read_csv\<close> returns the station list. The loop of
  \<open>csv_sanity_check\<close> stops one row before the end, so the boundaries of the last row
  of the file are never compared.
\<close>

theorem last_row_inverted_accepted:
  "read_csv decimal [[''50'', ''10'', ''A'']] =
     Inr [\<lparr>col0 = 50, col1 = 10, more_cols = [''A'']\<rparr>, noise_entry]"
  by (simp add: read_csv_def convert_row_def decimal_def decimal_nat_def is_digit_def
      csv_sanity_check_def)

section \<open>The position table: what populate_postostation returns\<close>

lemma assign_positions_Inr:
  "assign_positions cells ps v = Inr r \<Longrightarrow> length r = length cells \<and> set r \<subseteq> insert v (set cells)"
proof (induction ps arbitrary: cells)
  case Nil
  then show ?case by auto
next
  case (Cons p ps)
  from Cons.prems obtain c1 where c1: "setitem cells p v = Inr c1" and r: "assign_positions c1 ps v = Inr r"
    by (auto split: sum.splits)
  from setitem_Inr[OF c1] Cons.IH[OF r] show ?case by auto
qed

lemma assign_lines_Inr:
  "assign_lines sl cells lines = Inr r \<Longrightarrow>
     length r = length cells \<and> set r \<subseteq> set cells \<union> int ` set lines"
proof (induction lines arbitrary: cells)
  case Nil
  then show ?case by auto
next
  case (Cons a lines)
  from Cons.prems have
    "\<exists>lo hi c1. assign_positions cells [lo .. hi] (int a) = Inr c1 \<and>
       assign_lines sl c1 lines = Inr r"
    by (auto simp: Let_def split: sum.splits)
  then obtain lo hi c1 where
    c1: "assign_positions cells [lo .. hi] (int a) = Inr c1" and
    r: "assign_lines sl c1 lines = Inr r"
    by blast
  from assign_positions_Inr[OF c1] Cons.IH[OF r] show ?case by auto
qed

lemma assign_positions_in_range:
  assumes "\<forall>p\<in>set ps. 0 \<le> p \<and> p < int (length cells)"
  shows "\<exists>r. assign_positions cells ps v = Inr r \<and> length r = length cells \<and>
           (\<forall>k<length cells. r ! k = (if int k \<in> set ps then v else cells ! k))"
  using assms
proof (induction ps arbitrary: cells)
  case Nil
  then show ?case by simp
next
  case (Cons p ps)
  have p: "0 \<le> p" "p < int (length cells)" using Cons.prems by auto
  let ?c = "cells[nat p := v]"
  have "\<forall>q\<in>set ps. 0 \<le> q \<and> q < int (length ?c)" using Cons.prems by simp
  from Cons.IH[OF this] obtain r where
    r: "assign_positions ?c ps v = Inr r" "length r = length ?c"
       "\<forall>k<length ?c. r ! k = (if int k \<in> set ps then v else ?c ! k)"
    by blast
  have "assign_positions cells (p # ps) v = Inr r"
    using r(1) p by (simp add: setitem_in_range)
  moreover have "length r = length cells" using r(2) by simp
  moreover have "\<forall>k<length cells. r ! k = (if int k \<in> set (p # ps) then v else cells ! k)"
  proof (intro allI impI)
    fix k assume k: "k < length cells"
    then have "r ! k = (if int k \<in> set ps then v else ?c ! k)" using r(3) by simp
    moreover have "?c ! k = (if int k = p then v else cells ! k)"
      using k p by (auto simp: nth_list_update)
    ultimately show "r ! k = (if int k \<in> set (p # ps) then v else cells ! k)" by auto
  qed
  ultimately show ?case by blast
qed




lemma assign_lines_in_range:
  assumes "\<forall>i\<in>set lines. i < length sl \<and>
             (col0 (sl ! i) \<le> col1 (sl ! i) \<longrightarrow> 0 \<le> col0 (sl ! i) \<and> col1 (sl ! i) < int (length cells))"
  shows "\<exists>r. assign_lines sl cells lines = Inr r \<and> length r = length cells \<and>
           (\<forall>k<length cells.
              if \<exists>i\<in>set lines. in_range (sl ! i) (int k)
              then \<exists>i\<in>set lines. r ! k = int i \<and> in_range (sl ! i) (int k)
              else r ! k = cells ! k)"
  using assms
proof (induction lines arbitrary: cells)
  case Nil
  then show ?case by simp
next
  case (Cons a lines)
  have a: "a < length sl" using Cons.prems by simp
  let ?row = "sl ! a"
  have "\<forall>p\<in>set [col0 ?row .. col1 ?row]. 0 \<le> p \<and> p < int (length cells)"
    using Cons.prems by auto
  from assign_positions_in_range[OF this, of "int a"] obtain c1 where
    c1: "assign_positions cells [col0 ?row .. col1 ?row] (int a) = Inr c1" "length c1 = length cells"
        "\<forall>k<length cells. c1 ! k = (if in_range ?row (int k) then int a else cells ! k)"
    by (auto simp: in_range_def)
  have "\<forall>i\<in>set lines. i < length sl \<and>
             (col0 (sl ! i) \<le> col1 (sl ! i) \<longrightarrow> 0 \<le> col0 (sl ! i) \<and> col1 (sl ! i) < int (length c1))"
    using Cons.prems c1(2) by simp
  from Cons.IH[OF this] obtain r where
    r: "assign_lines sl c1 lines = Inr r" "length r = length c1"
       "\<forall>k<length c1.
              if \<exists>i\<in>set lines. in_range (sl ! i) (int k)
              then \<exists>i\<in>set lines. r ! k = int i \<and> in_range (sl ! i) (int k)
              else r ! k = c1 ! k"
    by blast
  have "assign_lines sl cells (a # lines) = Inr r"
    using r(1) c1(1) a by (simp add: getitem_nat)
  moreover have "length r = length cells" using r(2) c1(2) by simp
  moreover have "\<forall>k<length cells.
              if \<exists>i\<in>set (a # lines). in_range (sl ! i) (int k)
              then \<exists>i\<in>set (a # lines). r ! k = int i \<and> in_range (sl ! i) (int k)
              else r ! k = cells ! k"
  proof (intro allI impI)
    fix k assume k: "k < length cells"
    from r(3) k c1(2) have
      rk: "if \<exists>i\<in>set lines. in_range (sl ! i) (int k)
           then \<exists>i\<in>set lines. r ! k = int i \<and> in_range (sl ! i) (int k)
           else r ! k = c1 ! k" by simp
    from c1(3) k have ck: "c1 ! k = (if in_range ?row (int k) then int a else cells ! k)" by simp
    show "if \<exists>i\<in>set (a # lines). in_range (sl ! i) (int k)
          then \<exists>i\<in>set (a # lines). r ! k = int i \<and> in_range (sl ! i) (int k)
          else r ! k = cells ! k"
    proof (cases "\<exists>i\<in>set lines. in_range (sl ! i) (int k)")
      case True
      with rk show ?thesis by auto
    next
      case False
      with rk have "r ! k = c1 ! k" by simp
      with ck False show ?thesis by auto
    qed
  qed
  ultimately show ?case by blast
qed

lemma populate_Inr:
  assumes "populate_postostation sl = Inr cells"
  shows "length cells = 1021" and "set cells \<subseteq> insert (- 1) (int ` {0 ..< length sl - 1})"
  using assign_lines_Inr[OF assms[unfolded populate_postostation_def Let_def]]
  by (auto simp: MIN_POS_def MAX_POS_def)

lemma populate_in_range:
  assumes "\<forall>i<length sl - 1. col0 (sl ! i) \<le> col1 (sl ! i) \<longrightarrow>
             MIN_POS \<le> col0 (sl ! i) \<and> col1 (sl ! i) \<le> MAX_POS"
  shows "\<exists>cells. populate_postostation sl = Inr cells \<and> length cells = 1021 \<and>
           (\<forall>k<1021.
              if \<exists>i<length sl - 1. in_range (sl ! i) (int k)
              then \<exists>i<length sl - 1. cells ! k = int i \<and> in_range (sl ! i) (int k)
              else cells ! k = - 1)"
proof -
  let ?init = "map (\<lambda>_. - 1 :: int) [MIN_POS .. MAX_POS]"
  have "\<forall>i\<in>set [0 ..< length sl - 1]. i < length sl \<and>
          (col0 (sl ! i) \<le> col1 (sl ! i) \<longrightarrow> 0 \<le> col0 (sl ! i) \<and> col1 (sl ! i) < int (length ?init))"
    using assms by (auto simp: MIN_POS_def MAX_POS_def)
  from assign_lines_in_range[OF this] obtain r where
    r: "assign_lines sl ?init [0 ..< length sl - 1] = Inr r" "length r = length ?init"
       "\<forall>k<length ?init.
              if \<exists>i\<in>set [0 ..< length sl - 1]. in_range (sl ! i) (int k)
              then \<exists>i\<in>set [0 ..< length sl - 1]. r ! k = int i \<and> in_range (sl ! i) (int k)
              else r ! k = ?init ! k"
    by blast
  have nth: "\<And>k. k < 1021 \<Longrightarrow> ?init ! k = - 1"
    by (simp add: MIN_POS_def MAX_POS_def)
  have "populate_postostation sl = Inr r"
    using r(1) by (simp add: populate_postostation_def)
  moreover have "length r = 1021" using r(2) by (simp add: MIN_POS_def MAX_POS_def)
  moreover have "\<forall>k<1021.
              if \<exists>i<length sl - 1. in_range (sl ! i) (int k)
              then \<exists>i<length sl - 1. r ! k = int i \<and> in_range (sl ! i) (int k)
              else r ! k = - 1"
  proof (intro allI impI)
    fix k :: nat assume k: "k < 1021"
    have kl: "k < length ?init" using k by (simp add: MIN_POS_def MAX_POS_def)
    from r(3)[rule_format, OF kl] nth[OF k]
    show "if \<exists>i<length sl - 1. in_range (sl ! i) (int k)
              then \<exists>i<length sl - 1. r ! k = int i \<and> in_range (sl ! i) (int k)
              else r ! k = - 1"
      by (auto split: if_splits)
  qed
  ultimately show ?thesis by blast
qed

lemma accepted_sorted:
  assumes "csv_sanity_check stations = None"
  shows "i < j \<Longrightarrow> j < length stations \<Longrightarrow> col1 (stations ! i) < col0 (stations ! j)"
proof (induction j)
  case 0
  then show ?case by simp
next
  case (Suc j)
  from assms Suc.prems(2) have step:
    "col0 (stations ! j) \<le> col1 (stations ! j)" "col1 (stations ! j) < col0 (stations ! Suc j)"
    by (auto simp: csv_sanity_check_None_iff)
  show ?case
  proof (cases "i = j")
    case True
    with step show ?thesis by simp
  next
    case False
    with Suc.prems have "i < j" "j < length stations" by auto
    from Suc.IH[OF this] step show ?thesis by linarith
  qed
qed

lemma accepted_disjoint:
  assumes "csv_sanity_check stations = None"
    and "i < length stations" "j < length stations"
    and "in_range (stations ! i) p" "in_range (stations ! j) p"
  shows "i = j"
proof (rule ccontr)
  assume "i \<noteq> j"
  then consider "i < j" | "j < i" by linarith
  then show False
  proof cases
    case 1
    from accepted_sorted[OF assms(1) 1 assms(3)] assms(4,5) show False by (simp add: in_range_def)
  next
    case 2
    from accepted_sorted[OF assms(1) 2 assms(2)] assms(4,5) show False by (simp add: in_range_def)
  qed
qed

lemma populate_cells_valid:
  assumes "populate_postostation sl = Inr cells" and "k \<in> set cells"
  shows "k = - 1 \<or> (0 \<le> k \<and> k < int (length sl) - 1)"
  using populate_Inr(2)[OF assms(1)] assms(2) by auto


subsection \<open>When the table cannot be built\<close>

text \<open>
  A write \<open>pos2station[p] = line_nr\<close> raises exactly when \<open>p\<close> is outside
  \<open>[-len, len)\<close>. So \<open>populate_postostation\<close> raises exactly when some row of the csv
  file has a non-empty range that reaches above \<open>MAX_POS\<close> or below \<open>-(MAX_POS + 1)\<close>.
\<close>

lemma setitem_Inr_iff:
  "(\<exists>ys. setitem xs p v = Inr ys) \<longleftrightarrow> - int (length xs) \<le> p \<and> p < int (length xs)"
  by (auto simp: setitem_def py_index_def split: option.splits if_splits)

lemma assign_positions_Inr_iff:
  "(\<exists>r. assign_positions cells ps v = Inr r) \<longleftrightarrow>
     (\<forall>p\<in>set ps. - int (length cells) \<le> p \<and> p < int (length cells))"
proof (induction ps arbitrary: cells)
  case Nil
  then show ?case by simp
next
  case (Cons p ps)
  show ?case
  proof (cases "setitem cells p v")
    case (Inl e)
    with setitem_Inr_iff[of cells p v] show ?thesis by auto
  next
    case (Inr c1)
    with setitem_Inr_iff[of cells p v] setitem_Inr[OF Inr] Cons.IH[of c1] show ?thesis by auto
  qed
qed

lemma range_fits:
  "(\<forall>p\<in>set [lo .. hi]. - n \<le> p \<and> p < n) \<longleftrightarrow> (lo \<le> hi \<longrightarrow> - n \<le> lo \<and> hi < (n::int))"
proof
  assume a: "\<forall>p\<in>set [lo .. hi]. - n \<le> p \<and> p < n"
  show "lo \<le> hi \<longrightarrow> - n \<le> lo \<and> hi < n"
  proof
    assume "lo \<le> hi"
    then have "lo \<in> set [lo .. hi]" "hi \<in> set [lo .. hi]" by simp_all
    with a show "- n \<le> lo \<and> hi < n" by blast
  qed
next
  assume "lo \<le> hi \<longrightarrow> - n \<le> lo \<and> hi < n"
  then show "\<forall>p\<in>set [lo .. hi]. - n \<le> p \<and> p < n" by auto
qed

lemma assign_lines_Inr_iff:
  assumes "\<forall>i\<in>set lines. i < length sl"
  shows "(\<exists>r. assign_lines sl cells lines = Inr r) \<longleftrightarrow>
     (\<forall>i\<in>set lines. \<forall>p\<in>set [col0 (sl ! i) .. col1 (sl ! i)].
        - int (length cells) \<le> p \<and> p < int (length cells))"
  using assms
proof (induction lines arbitrary: cells)
  case Nil
  then show ?case by simp
next
  case (Cons a lines)
  let ?ps = "[col0 (sl ! a) .. col1 (sl ! a)]"
  have a: "getitem sl (int a) = Inr (sl ! a)" using Cons.prems by (simp add: getitem_nat)
  show ?case
  proof (cases "assign_positions cells ?ps (int a)")
    case (Inl e)
    then have "\<not> (\<exists>r. assign_positions cells ?ps (int a) = Inr r)" by simp
    then have "\<not> (\<forall>p\<in>set ?ps. - int (length cells) \<le> p \<and> p < int (length cells))"
      unfolding assign_positions_Inr_iff .
    moreover have "\<not> (\<exists>r. assign_lines sl cells (a # lines) = Inr r)"
      using a Inl by simp
    ultimately show ?thesis by simp
  next
    case (Inr c1)
    then have "\<exists>r. assign_positions cells ?ps (int a) = Inr r" by simp
    then have fit: "\<forall>p\<in>set ?ps. - int (length cells) \<le> p \<and> p < int (length cells)"
      unfolding assign_positions_Inr_iff .
    from assign_positions_Inr[OF Inr] have len: "length c1 = length cells" by simp
    from Cons.prems have "\<forall>i\<in>set lines. i < length sl" by simp
    from Cons.IH[OF this, of c1] have
      "(\<exists>r. assign_lines sl c1 lines = Inr r) \<longleftrightarrow>
        (\<forall>i\<in>set lines. \<forall>p\<in>set [col0 (sl ! i) .. col1 (sl ! i)].
        - int (length cells) \<le> p \<and> p < int (length cells))"
      unfolding len .
    moreover have "assign_lines sl cells (a # lines) = assign_lines sl c1 lines"
      using a Inr by simp
    ultimately show ?thesis using fit by simp
  qed
qed

lemma populate_fails_iff:
  "(\<exists>e. populate_postostation sl = Inl e) \<longleftrightarrow>
     (\<exists>i<length sl - 1. col0 (sl ! i) \<le> col1 (sl ! i) \<and>
        (col0 (sl ! i) < - (MAX_POS - MIN_POS + 1) \<or> MAX_POS - MIN_POS < col1 (sl ! i)))"
proof -
  let ?init = "map (\<lambda>_. - 1 :: int) [MIN_POS .. MAX_POS]"
  let ?n = "MAX_POS - MIN_POS + 1"
  have len: "int (length ?init) = ?n" by (simp add: MIN_POS_def MAX_POS_def)
  have "\<forall>i\<in>set [0 ..< length sl - 1]. i < length sl" by auto
  from assign_lines_Inr_iff[OF this, of ?init]
  have "(\<exists>r. assign_lines sl ?init [0 ..< length sl - 1] = Inr r) \<longleftrightarrow>
     (\<forall>i\<in>set [0 ..< length sl - 1]. col0 (sl ! i) \<le> col1 (sl ! i) \<longrightarrow>
        - ?n \<le> col0 (sl ! i) \<and> col1 (sl ! i) < ?n)"
    unfolding len range_fits .
  then have ok: "(\<exists>r. populate_postostation sl = Inr r) \<longleftrightarrow>
     (\<forall>i<length sl - 1. col0 (sl ! i) \<le> col1 (sl ! i) \<longrightarrow>
        - ?n \<le> col0 (sl ! i) \<and> col1 (sl ! i) < ?n)"
    unfolding populate_postostation_def Let_def by (simp add: Ball_def)
  have "(\<exists>e. populate_postostation sl = Inl e) \<longleftrightarrow> \<not> (\<exists>r. populate_postostation sl = Inr r)"
    by (cases "populate_postostation sl") auto
  then show ?thesis unfolding ok by auto
qed

lemma init_table: "map (\<lambda>_. - 1 :: int) [MIN_POS .. MAX_POS] = replicate 1021 (- 1)"
  by (simp add: map_replicate_const MIN_POS_def MAX_POS_def)

lemma upto_minus_one: "[- 1 .. 3] = [- 1, 0, 1, 2, 3 :: int]"
  by (simp add: upto_rec1)

subsection \<open>The scenario\<close>

lemma demo_read_csv: "read_csv decimal demo_playlist = Inr demo_stations"
  by (simp add: demo_playlist_def demo_stations_def read_csv_def convert_row_def decimal_def
      decimal_nat_def is_digit_def csv_sanity_check_def)

lemma demo_bounds:
  "\<forall>i<length demo_stations - 1. col0 (demo_stations ! i) \<le> col1 (demo_stations ! i) \<longrightarrow>
      MIN_POS \<le> col0 (demo_stations ! i) \<and> col1 (demo_stations ! i) \<le> MAX_POS"
  by (simp add: demo_stations_def MIN_POS_def MAX_POS_def nth_Cons' less_Suc_eq numeral_2_eq_2)

lemma demo_populate: "populate_postostation demo_stations = Inr demo_cells"
proof -
  from populate_in_range[OF demo_bounds] obtain cells where
    c: "populate_postostation demo_stations = Inr cells" "length cells = 1021"
       "\<forall>k<1021.
              if \<exists>i<length demo_stations - 1. in_range (demo_stations ! i) (int k)
              then \<exists>i<length demo_stations - 1. cells ! k = int i \<and> in_range (demo_stations ! i) (int k)
              else cells ! k = - 1"
    by blast
  have two: "\<And>P. (\<exists>i<length demo_stations - 1. P i) \<longleftrightarrow> P 0 \<or> P (Suc 0)"
    by (auto simp: demo_stations_def less_Suc_eq numeral_2_eq_2)
  have "cells = demo_cells"
  proof (rule nth_equalityI)
    show "length cells = length demo_cells" using c(2) by (simp add: demo_cells_def)
  next
    fix k assume "k < length cells"
    then have k: "k < 1021" using c(2) by simp
    from c(3)[rule_format, OF k] k show "cells ! k = demo_cells ! k"
      unfolding two
      by (auto simp: demo_cells_def demo_stations_def in_range_def nth_append split: if_splits)
  qed
  with c(1) show ?thesis by simp
qed

lemma demo_cells_nth:
  "k < 100 \<Longrightarrow> demo_cells ! k = 0"
  "100 \<le> k \<Longrightarrow> k < 200 \<Longrightarrow> demo_cells ! k = 1"
  "200 \<le> k \<Longrightarrow> k < 1021 \<Longrightarrow> demo_cells ! k = - 1"
  by (simp_all add: demo_cells_def nth_append)

section \<open>Resolving a position\<close>

text \<open>
  Claim C2, as the script has it. Take a station list that \<open>read_csv\<close> returns and in
  which every row of the csv file with a non-empty range has its boundaries within
  \<open>[MIN_POS, MAX_POS]\<close>. Then \<open>populate_postostation\<close> returns a table, and for every
  position \<open>p\<close> in \<open>[MIN_POS, MAX_POS]\<close> the expression \<open>station_list[posToStation[p]]\<close>
  raises nothing: it is the row of the csv file whose range holds \<open>p\<close> when there is one,
  and the noise entry when no row of the file holds \<open>p\<close>.
\<close>

theorem resolve_in_bounds_table:
  assumes "read_csv to_int playlist = Inr sl"
    and "\<forall>i<length sl - 1. col0 (sl ! i) \<le> col1 (sl ! i) \<longrightarrow>
           MIN_POS \<le> col0 (sl ! i) \<and> col1 (sl ! i) \<le> MAX_POS"
    and "MIN_POS \<le> p" and "p \<le> MAX_POS"
  shows "\<exists>cells. populate_postostation sl = Inr cells \<and>
           (\<forall>i<length sl - 1. in_range (sl ! i) p \<longrightarrow> selected_station sl cells p = Inr (sl ! i)) \<and>
           ((\<forall>i<length sl - 1. \<not> in_range (sl ! i) p) \<longrightarrow> selected_station sl cells p = Inr noise_entry)"
proof -
  from assms(1) obtain stations where
    st: "csv_sanity_check stations = None" "sl = stations @ [noise_entry]"
    by (auto simp: read_csv_Inr_iff)
  have real: "\<And>i. i < length sl - 1 \<Longrightarrow> i < length stations \<and> sl ! i = stations ! i"
    using st(2) by (simp add: nth_append)
  have l: "last sl = noise_entry" "sl \<noteq> []" using st(2) by simp_all
  from populate_in_range[OF assms(2)] obtain cells where
    c: "populate_postostation sl = Inr cells" "length cells = 1021"
       "\<forall>k<1021.
              if \<exists>i<length sl - 1. in_range (sl ! i) (int k)
              then \<exists>i<length sl - 1. cells ! k = int i \<and> in_range (sl ! i) (int k)
              else cells ! k = - 1"
    by blast
  have k: "nat p < 1021" "int (nat p) = p" "0 \<le> p" "p < int (length cells)"
    using assms(3,4) c(2) by (auto simp: MIN_POS_def MAX_POS_def)
  from c(3)[rule_format, OF k(1)] have
    ch: "if \<exists>i<length sl - 1. in_range (sl ! i) p
         then \<exists>i<length sl - 1. cells ! nat p = int i \<and> in_range (sl ! i) p
         else cells ! nat p = - 1" by (simp only: k(2))
  have sel: "selected_station sl cells p = getitem sl (cells ! nat p)"
    using k(3,4) by (simp add: selected_station_def getitem_in_range)
  have uniq: "\<And>i j. i < length sl - 1 \<Longrightarrow> j < length sl - 1 \<Longrightarrow>
                in_range (sl ! i) p \<Longrightarrow> in_range (sl ! j) p \<Longrightarrow> i = j"
    using accepted_disjoint[OF st(1)] real by metis
  have "\<forall>i<length sl - 1. in_range (sl ! i) p \<longrightarrow> selected_station sl cells p = Inr (sl ! i)"
  proof (intro allI impI)
    fix i assume i: "i < length sl - 1" "in_range (sl ! i) p"
    then have "\<exists>i<length sl - 1. in_range (sl ! i) p" by blast
    with ch have "\<exists>i<length sl - 1. cells ! nat p = int i \<and> in_range (sl ! i) p"
      by simp
    then obtain j where j: "j < length sl - 1" "cells ! nat p = int j" "in_range (sl ! j) p"
      by blast
    with i uniq have "j = i" by blast
    with j i(1) sel show "selected_station sl cells p = Inr (sl ! i)"
      by (simp add: getitem_nat)
  qed
  moreover have "(\<forall>i<length sl - 1. \<not> in_range (sl ! i) p) \<longrightarrow>
      selected_station sl cells p = Inr noise_entry"
    using ch sel l by (auto simp: getitem_minus_one)
  ultimately show ?thesis using c(1) by blast
qed

text \<open>In the scenario, position 150 selects station B and position 500 the noise file.\<close>

theorem resolve_in_bounds_table_witness:
  "read_csv decimal demo_playlist = Inr demo_stations \<and>
   MIN_POS \<le> 150 \<and> 150 \<le> MAX_POS \<and> MIN_POS \<le> 500 \<and> 500 \<le> MAX_POS \<and>
   populate_postostation demo_stations = Inr demo_cells \<and>
   in_range (demo_stations ! 1) 150 \<and>
   selected_station demo_stations demo_cells 150 = Inr \<lparr>col0 = 100, col1 = 199, more_cols = [''B'']\<rparr> \<and>
   selected_station demo_stations demo_cells 500 = Inr noise_entry"
proof -
  have b: "MIN_POS \<le> 150" "150 \<le> MAX_POS" "MIN_POS \<le> 500" "500 \<le> MAX_POS"
    by (simp_all add: MIN_POS_def MAX_POS_def)
  have in150: "1 < length demo_stations - 1" "in_range (demo_stations ! 1) 150"
    by (simp_all add: demo_stations_def in_range_def)
  have out500: "\<forall>i<length demo_stations - 1. \<not> in_range (demo_stations ! i) 500"
    by (simp add: demo_stations_def in_range_def nth_Cons' less_Suc_eq numeral_2_eq_2)
  from resolve_in_bounds_table [OF demo_read_csv demo_bounds b(1,2)] in150
  have "selected_station demo_stations demo_cells 150 = Inr (demo_stations ! 1)"
    by (auto simp: demo_populate)
  moreover
  from resolve_in_bounds_table [OF demo_read_csv demo_bounds b(3,4)] out500
  have "selected_station demo_stations demo_cells 500 = Inr noise_entry"
    by (auto simp: demo_populate)
  ultimately show ?thesis
    using b in150(2) demo_read_csv demo_populate by (simp add: demo_stations_def)
qed

text \<open>
  Against C2 as it is written: the csv file with the single row \<open>-2,3,A\<close> is accepted
  and its table is built. The writes at the positions \<open>-2\<close> and \<open>-1\<close> land in the cells
  1019 and 1020, so position 1020, which is in the range of no row, selects station A and
  not the noise file.
\<close>

theorem negative_bound_wraps:
  "read_csv decimal [[''-2'', ''3'', ''A'']] =
     Inr [\<lparr>col0 = - 2, col1 = 3, more_cols = [''A'']\<rparr>, noise_entry] \<and>
   populate_postostation [\<lparr>col0 = - 2, col1 = 3, more_cols = [''A'']\<rparr>, noise_entry] =
     Inr ((replicate 1021 (- 1))[1019 := 0, 1020 := 0, 0 := 0, 1 := 0, 2 := 0, 3 := 0]) \<and>
   MIN_POS \<le> 1020 \<and> 1020 \<le> MAX_POS \<and>
   \<not> in_range \<lparr>col0 = - 2, col1 = 3, more_cols = [''A'']\<rparr> 1020 \<and>
   selected_station [\<lparr>col0 = - 2, col1 = 3, more_cols = [''A'']\<rparr>, noise_entry]
     ((replicate 1021 (- 1))[1019 := 0, 1020 := 0, 0 := 0, 1 := 0, 2 := 0, 3 := 0]) 1020 =
     Inr \<lparr>col0 = - 2, col1 = 3, more_cols = [''A'']\<rparr> \<and>
   \<lparr>col0 = - 2, col1 = 3, more_cols = [''A'']\<rparr> \<noteq> noise_entry"
proof -
  have "read_csv decimal [[''-2'', ''3'', ''A'']] =
     Inr [\<lparr>col0 = - 2, col1 = 3, more_cols = [''A'']\<rparr>, noise_entry]"
    by (simp add: read_csv_def convert_row_def decimal_def decimal_nat_def is_digit_def
        csv_sanity_check_def)
  moreover have "populate_postostation [\<lparr>col0 = - 2, col1 = 3, more_cols = [''A'']\<rparr>, noise_entry] =
     Inr ((replicate 1021 (- 1))[1019 := 0, 1020 := 0, 0 := 0, 1 := 0, 2 := 0, 3 := 0])"
    by (simp add: populate_postostation_def init_table getitem_def setitem_def py_index_def
        upto_minus_one)
  moreover have "selected_station [\<lparr>col0 = - 2, col1 = 3, more_cols = [''A'']\<rparr>, noise_entry]
     ((replicate 1021 (- 1))[1019 := 0, 1020 := 0, 0 := 0, 1 := 0, 2 := 0, 3 := 0]) 1020 =
     Inr \<lparr>col0 = - 2, col1 = 3, more_cols = [''A'']\<rparr>"
    by (simp add: selected_station_def getitem_def py_index_def)
  ultimately show ?thesis
    by (simp add: MIN_POS_def MAX_POS_def in_range_def noise_entry_def)
qed

section \<open>Building the position table\<close>

text \<open>
  Claim C5, as the script has it. Take a station list that \<open>read_csv\<close> returns and in
  which every row of the csv file with a non-empty range has its boundaries within
  \<open>[MIN_POS, MAX_POS]\<close>. Then \<open>populate_postostation\<close> raises nothing and returns a table
  with one cell for each position of \<open>[MIN_POS, MAX_POS]\<close>, in which the cell of \<open>p\<close>
  holds the line number \<open>i\<close> exactly when \<open>p\<close> is in the range of row \<open>i\<close>, and holds
  \<open>-1\<close> exactly when \<open>p\<close> is in the range of no row of the file.
\<close>

theorem populate_in_bounds_table:
  assumes "read_csv to_int playlist = Inr sl"
    and "\<forall>i<length sl - 1. col0 (sl ! i) \<le> col1 (sl ! i) \<longrightarrow>
           MIN_POS \<le> col0 (sl ! i) \<and> col1 (sl ! i) \<le> MAX_POS"
  shows "\<exists>cells. populate_postostation sl = Inr cells \<and>
           int (length cells) = MAX_POS - MIN_POS + 1 \<and>
           (\<forall>p. MIN_POS \<le> p \<and> p \<le> MAX_POS \<longrightarrow>
              (\<forall>i<length sl - 1. cells ! nat p = int i \<longleftrightarrow> in_range (sl ! i) p) \<and>
              (cells ! nat p = - 1 \<longleftrightarrow> (\<forall>i<length sl - 1. \<not> in_range (sl ! i) p)))"
proof -
  from assms(1) obtain stations where
    st: "csv_sanity_check stations = None" "sl = stations @ [noise_entry]"
    by (auto simp: read_csv_Inr_iff)
  have real: "\<And>i. i < length sl - 1 \<Longrightarrow> i < length stations \<and> sl ! i = stations ! i"
    using st(2) by (simp add: nth_append)
  from populate_in_range[OF assms(2)] obtain cells where
    c: "populate_postostation sl = Inr cells" "length cells = 1021"
       "\<forall>k<1021.
              if \<exists>i<length sl - 1. in_range (sl ! i) (int k)
              then \<exists>i<length sl - 1. cells ! k = int i \<and> in_range (sl ! i) (int k)
              else cells ! k = - 1"
    by blast
  have "\<forall>p. MIN_POS \<le> p \<and> p \<le> MAX_POS \<longrightarrow>
              (\<forall>i<length sl - 1. cells ! nat p = int i \<longleftrightarrow> in_range (sl ! i) p) \<and>
              (cells ! nat p = - 1 \<longleftrightarrow> (\<forall>i<length sl - 1. \<not> in_range (sl ! i) p))"
  proof (intro allI impI)
    fix p assume p: "MIN_POS \<le> p \<and> p \<le> MAX_POS"
    then have k: "nat p < 1021" "int (nat p) = p" by (auto simp: MIN_POS_def MAX_POS_def)
    from c(3)[rule_format, OF k(1)] have
      ch: "if \<exists>i<length sl - 1. in_range (sl ! i) p
           then \<exists>i<length sl - 1. cells ! nat p = int i \<and> in_range (sl ! i) p
           else cells ! nat p = - 1" by (simp only: k(2))
    have uniq: "\<And>i j. i < length sl - 1 \<Longrightarrow> j < length sl - 1 \<Longrightarrow>
                  in_range (sl ! i) p \<Longrightarrow> in_range (sl ! j) p \<Longrightarrow> i = j"
      using accepted_disjoint[OF st(1)] real by metis
    show "(\<forall>i<length sl - 1. cells ! nat p = int i \<longleftrightarrow> in_range (sl ! i) p) \<and>
              (cells ! nat p = - 1 \<longleftrightarrow> (\<forall>i<length sl - 1. \<not> in_range (sl ! i) p))"
    proof (cases "\<exists>i<length sl - 1. in_range (sl ! i) p")
      case True
      with ch obtain i where i: "i < length sl - 1" "cells ! nat p = int i" "in_range (sl ! i) p"
        by auto
      have "\<forall>j<length sl - 1. cells ! nat p = int j \<longleftrightarrow> in_range (sl ! j) p"
        using i uniq by auto
      moreover have "cells ! nat p \<noteq> - 1" using i(2) by simp
      ultimately show ?thesis using True by blast
    next
      case False
      with ch have "cells ! nat p = - 1" by simp
      with False show ?thesis by auto
    qed
  qed
  with c(1,2) show ?thesis by (auto simp: MIN_POS_def MAX_POS_def)
qed

text \<open>The table of the scenario.\<close>

theorem populate_in_bounds_table_witness:
  "read_csv decimal demo_playlist = Inr demo_stations \<and>
   populate_postostation demo_stations = Inr demo_cells \<and>
   int (length demo_cells) = MAX_POS - MIN_POS + 1 \<and>
   in_range (demo_stations ! 0) 99 \<and> demo_cells ! 99 = 0 \<and>
   in_range (demo_stations ! 1) 100 \<and> demo_cells ! 100 = 1 \<and>
   demo_cells ! 200 = - 1"
proof -
  from populate_in_bounds_table [OF demo_read_csv demo_bounds] obtain cells where
    c: "populate_postostation demo_stations = Inr cells"
       "int (length cells) = MAX_POS - MIN_POS + 1"
       "\<forall>p. MIN_POS \<le> p \<and> p \<le> MAX_POS \<longrightarrow>
              (\<forall>i<length demo_stations - 1. cells ! nat p = int i \<longleftrightarrow> in_range (demo_stations ! i) p) \<and>
              (cells ! nat p = - 1 \<longleftrightarrow> (\<forall>i<length demo_stations - 1. \<not> in_range (demo_stations ! i) p))"
    by blast
  from c(1) have eq: "cells = demo_cells" by (simp add: demo_populate)
  have "in_range (demo_stations ! 0) 99" "in_range (demo_stations ! 1) 100"
    by (simp_all add: demo_stations_def in_range_def)
  then show ?thesis
    using c(2) demo_read_csv demo_populate unfolding eq
    by (simp add: demo_cells_nth)
qed

text \<open>
  Against C5 as it is written: the csv file with the single row \<open>1020,1021,A\<close> is
  accepted, and building its table raises \<open>IndexError\<close> at the write for position 1021.
  The boundaries are used as list indices as they are; nothing clamps them.
\<close>

theorem populate_beyond_max_fails:
  "read_csv decimal [[''1020'', ''1021'', ''A'']] =
     Inr [\<lparr>col0 = 1020, col1 = 1021, more_cols = [''A'']\<rparr>, noise_entry] \<and>
   populate_postostation [\<lparr>col0 = 1020, col1 = 1021, more_cols = [''A'']\<rparr>, noise_entry] =
     Inl IndexError"
proof -
  have "read_csv decimal [[''1020'', ''1021'', ''A'']] =
     Inr [\<lparr>col0 = 1020, col1 = 1021, more_cols = [''A'']\<rparr>, noise_entry]"
    by (simp add: read_csv_def convert_row_def decimal_def decimal_nat_def is_digit_def
        csv_sanity_check_def)
  moreover have "populate_postostation [\<lparr>col0 = 1020, col1 = 1021, more_cols = [''A'']\<rparr>, noise_entry] =
     Inl IndexError"
    by (simp add: populate_postostation_def init_table getitem_def setitem_def py_index_def)
  ultimately show ?thesis by simp
qed

section \<open>The cells index the station list\<close>

text \<open>
  Claim C10. \<open>read_csv\<close> ends the station list with the noise entry. Every value \<open>v\<close> in
  a table that \<open>populate_postostation\<close> returns for that list indexes the list without
  an \<open>IndexError\<close>: \<open>-1\<close> gives the last element, which is the noise entry, and any
  other value is the line number of a row of the csv file and gives that row.
\<close>

theorem cells_index_station_list:
  assumes "read_csv to_int playlist = Inr sl"
    and "populate_postostation sl = Inr cells"
    and "v \<in> set cells"
  shows "last sl = noise_entry \<and>
         (if v = - 1 then getitem sl v = Inr noise_entry
          else 0 \<le> v \<and> v < int (length sl) - 1 \<and> getitem sl v = Inr (sl ! nat v))"
proof -
  from assms(1) obtain stations where sl: "sl = stations @ [noise_entry]"
    by (auto simp: read_csv_Inr_iff)
  then have l: "last sl = noise_entry" "sl \<noteq> []" by simp_all
  from populate_cells_valid[OF assms(2,3)] show ?thesis
    using l by (auto simp: getitem_minus_one getitem_in_range)
qed

theorem cells_index_station_list_witness:
  "read_csv decimal demo_playlist = Inr demo_stations \<and>
   populate_postostation demo_stations = Inr demo_cells \<and>
   demo_cells ! 150 = 1 \<and> demo_cells ! 500 = - 1 \<and>
   last demo_stations = noise_entry \<and>
   getitem demo_stations 1 = Inr \<lparr>col0 = 100, col1 = 199, more_cols = [''B'']\<rparr> \<and>
   getitem demo_stations (- 1) = Inr noise_entry"
proof -
  have n: "demo_cells ! 150 = 1" "demo_cells ! 500 = - 1"
    by (simp_all add: demo_cells_nth)
  have m: "1 \<in> set demo_cells" "- 1 \<in> set demo_cells"
    by (simp_all add: demo_cells_def)
  from cells_index_station_list [OF demo_read_csv demo_populate m(1)]
       cells_index_station_list [OF demo_read_csv demo_populate m(2)]
  show ?thesis
    using n demo_read_csv demo_populate by (simp add: demo_stations_def)
qed

section \<open>The encoder callback after the start of the script\<close>

lemma convert_row_cols:
  "convert_row to_int row = Some s \<Longrightarrow> more_cols s = drop 2 row"
  by (auto simp: convert_row_def split: list.splits option.splits)

lemma read_rows_cols:
  "read_rows to_int playlist = Inr stations \<Longrightarrow> list_all (\<lambda>row. 3 \<le> length row) playlist \<Longrightarrow>
     \<forall>s\<in>set stations. more_cols s \<noteq> []"
proof (induction playlist arbitrary: stations)
  case Nil
  then show ?case by simp
next
  case (Cons row playlist)
  from Cons.prems(1) obtain s rest where
    s: "convert_row to_int row = Some s" "read_rows to_int playlist = Inr rest" "stations = s # rest"
    by (auto split: option.splits sum.splits)
  from convert_row_cols[OF s(1)] Cons.prems(2) have "more_cols s \<noteq> []" by simp
  moreover from Cons.IH[OF s(2)] Cons.prems(2) have "\<forall>s\<in>set rest. more_cols s \<noteq> []" by simp
  ultimately show ?case using s(3) by simp
qed

lemma col2_Inr: "more_cols row \<noteq> [] \<Longrightarrow> col2 row = Inr (hd (more_cols row))"
  by (cases "more_cols row") (auto simp: col2_def getitem_def py_index_def)

lemma started_urls:
  assumes "started to_int playlist st"
    and "list_all (\<lambda>row. 3 \<le> length row) playlist"
    and "row \<in> set (station_list st)"
  shows "\<exists>url. col2 row = Inr url"
proof -
  from assms(1) obtain stations where
    st: "read_rows to_int playlist = Inr stations" "station_list st = stations @ [noise_entry]"
    by (auto simp: started_def read_csv_Inr_iff)
  from read_rows_cols[OF st(1) assms(2)] st(2) assms(3) have "more_cols row \<noteq> []"
    by (auto simp: noise_entry_def)
  then show ?thesis by (simp add: col2_Inr)
qed

lemma started_cells:
  assumes "started to_int playlist st" and "MIN_POS \<le> q" and "q \<le> MAX_POS"
  shows "getitem (posToStation st) q = Inr (posToStation st ! nat q)"
  using populate_Inr(1)[of "station_list st" "posToStation st"] assms
  by (simp add: started_def getitem_in_range MIN_POS_def MAX_POS_def)

lemma started_selected:
  assumes "started to_int playlist st" and "MIN_POS \<le> q" and "q \<le> MAX_POS"
  shows "\<exists>row. selected_station (station_list st) (posToStation st) q = Inr row \<and>
           row \<in> set (station_list st)"
proof -
  let ?sl = "station_list st" and ?cells = "posToStation st"
  from assms(1) have pop: "populate_postostation ?sl = Inr ?cells" and
    ne: "?sl \<noteq> []"
    by (auto simp: started_def read_csv_Inr_iff)
  have len: "length ?cells = 1021" by (rule populate_Inr(1)[OF pop])
  with assms(2,3) have "nat q < length ?cells" by (simp add: MIN_POS_def MAX_POS_def)
  then have mem: "?cells ! nat q \<in> set ?cells" by simp
  have sel: "selected_station ?sl ?cells q = getitem ?sl (?cells ! nat q)"
    by (simp add: selected_station_def started_cells[OF assms])
  from populate_cells_valid[OF pop mem] show ?thesis
  proof
    assume "?cells ! nat q = - 1"
    with sel ne show ?thesis by (simp add: getitem_minus_one)
  next
    assume k: "0 \<le> ?cells ! nat q \<and> ?cells ! nat q < int (length ?sl) - 1"
    then have "getitem ?sl (?cells ! nat q) = Inr (?sl ! nat (?cells ! nat q))"
      by (simp add: getitem_in_range)
    moreover from k have "nat (?cells ! nat q) < length ?sl" by linarith
    then have "?sl ! nat (?cells ! nat q) \<in> set ?sl" by (rule nth_mem)
    ultimately show ?thesis using sel by simp
  qed
qed

lemma effective_way_bounds:
  assumes "MIN_POS \<le> p" and "p \<le> MAX_POS" and "way \<in> {- 1, 0, 1}"
  shows "MIN_POS \<le> p + effective_way p way" and "p + effective_way p way \<le> MAX_POS"
  using assms by (auto simp: effective_way_def MIN_POS_def MAX_POS_def)

lemma callback_started:
  assumes "started to_int playlist st"
    and "list_all (\<lambda>row. 3 \<le> length row) playlist"
    and "MIN_POS \<le> pos st" and "pos st \<le> MAX_POS"
    and "way \<in> {- 1, 0, 1}"
  shows "\<exists>st1. callback_rotary_encoder way st = (None, write_position_files st1) \<and>
           pos st1 = pos st + effective_way (pos st) way \<and>
           (if posToStation st ! nat (pos st) \<noteq> posToStation st ! nat (pos st + effective_way (pos st) way)
            then \<exists>row url. selected_station (station_list st) (posToStation st) (pos st1) = Inr row \<and>
                   col2 row = Inr url \<and> player st1 = player st @ [Stop, SetMedia url, Play]
            else player st1 = player st)"
proof -
  let ?q = "pos st + effective_way (pos st) way"
  have q: "MIN_POS \<le> ?q" "?q \<le> MAX_POS"
    using effective_way_bounds[OF assms(3,4,5)] by simp_all
  have g1: "getitem (posToStation st) (pos st) = Inr (posToStation st ! nat (pos st))"
    by (rule started_cells[OF assms(1,3,4)])
  have g2: "getitem (posToStation st) ?q = Inr (posToStation st ! nat ?q)"
    by (rule started_cells[OF assms(1) q])
  show ?thesis
  proof (cases "posToStation st ! nat (pos st) = posToStation st ! nat ?q")
    case True
    then have "callback_rotary_encoder way st = (None, write_position_files (st\<lparr>pos := ?q\<rparr>))"
      by (simp add: callback_rotary_encoder_def g1 g2)
    with True show ?thesis by auto
  next
    case False
    from started_selected[OF assms(1) q] obtain row where
      row: "selected_station (station_list st) (posToStation st) ?q = Inr row"
           "row \<in> set (station_list st)" by blast
    from started_urls[OF assms(1,2) row(2)] obtain url where url: "col2 row = Inr url" by blast
    from False have "callback_rotary_encoder way st =
        (None, write_position_files (play url (st\<lparr>pos := ?q\<rparr>)))"
      by (simp add: callback_rotary_encoder_def g1 g2 row(1) url)
    moreover have "pos (play url (st\<lparr>pos := ?q\<rparr>)) = ?q"
      "player (play url (st\<lparr>pos := ?q\<rparr>)) = player st @ [Stop, SetMedia url, Play]"
      by (simp_all add: play_def)
    ultimately show ?thesis using False row(1) url by auto
  qed
qed

lemma demo_started: "started decimal demo_playlist (demo_radio p)"
  by (simp add: started_def demo_radio_def demo_read_csv demo_populate)

lemma demo_three_columns: "list_all (\<lambda>row. 3 \<le> length row) demo_playlist"
  by (simp add: demo_playlist_def)

lemma demo_selected_100:
  "selected_station demo_stations demo_cells 100 = Inr \<lparr>col0 = 100, col1 = 199, more_cols = [''B'']\<rparr>"
  by (simp add: selected_station_def getitem_def py_index_def demo_cells_def demo_stations_def
      nth_append)

lemma effective_way_explicit:
  assumes "MIN_POS \<le> p" and "p \<le> MAX_POS"
  shows "p + effective_way p way =
           (if (p = MAX_POS \<and> way = 1) \<or> (p = MIN_POS \<and> way = - 1) then p else p + way)"
  using assms by (auto simp: effective_way_def)

lemma demo_selected_99:
  "selected_station demo_stations demo_cells 99 = Inr \<lparr>col0 = 0, col1 = 99, more_cols = [''A'']\<rparr>"
  by (simp add: selected_station_def getitem_def py_index_def demo_cells_def demo_stations_def
      nth_append)

text \<open>
  Claim C1. The radio is in a state that the start of the script builds from a csv file
  whose rows have the three required columns, with \<open>pos\<close> in \<open>[MIN_POS, MAX_POS]\<close>, and
  the encoder reports a step \<open>way\<close> of \<open>-1\<close>, \<open>0\<close> or \<open>1\<close>. Then the callback raises
  nothing. The new position is the old one when the old one is \<open>MAX_POS\<close> and the step is
  \<open>+1\<close>, or is \<open>MIN_POS\<close> and the step is \<open>-1\<close>; in every other case it is the old
  position plus the step. The player is called exactly when the cells of the old and the
  new position differ (the cell \<open>-1\<close> being the noise file): it then receives one
  \<open>stop\<close>, followed by the start of the stream url of the station selected at the new
  position, and nothing else. When the two cells are equal the player receives no call.
\<close>

theorem encoder_step_transition:
  assumes "started to_int playlist st"
    and "list_all (\<lambda>row. 3 \<le> length row) playlist"
    and "MIN_POS \<le> pos st" and "pos st \<le> MAX_POS"
    and "way \<in> {- 1, 0, 1}"
  shows "\<exists>st'. callback_rotary_encoder way st = (None, st') \<and>
           pos st' =
             (if (pos st = MAX_POS \<and> way = 1) \<or> (pos st = MIN_POS \<and> way = - 1) then pos st
              else pos st + way) \<and>
           (if posToStation st ! nat (pos st) \<noteq> posToStation st ! nat (pos st')
            then \<exists>row url. selected_station (station_list st) (posToStation st) (pos st') = Inr row \<and>
                   col2 row = Inr url \<and> player st' = player st @ [Stop, SetMedia url, Play]
            else player st' = player st)"
proof -
  from callback_started[OF assms] obtain st1 where
    r: "callback_rotary_encoder way st = (None, write_position_files st1)"
       "pos st1 = pos st + effective_way (pos st) way"
       "if posToStation st ! nat (pos st) \<noteq> posToStation st ! nat (pos st + effective_way (pos st) way)
        then \<exists>row url. selected_station (station_list st) (posToStation st) (pos st1) = Inr row \<and>
               col2 row = Inr url \<and> player st1 = player st @ [Stop, SetMedia url, Play]
        else player st1 = player st"
    by blast
  let ?st' = "write_position_files st1"
  have w: "pos ?st' = pos st1" "player ?st' = player st1"
    by (simp_all add: write_position_files_def)
  have p: "pos ?st' =
             (if (pos st = MAX_POS \<and> way = 1) \<or> (pos st = MIN_POS \<and> way = - 1) then pos st
              else pos st + way)"
    unfolding w r(2) by (rule effective_way_explicit[OF assms(3,4)])
  have c: "if posToStation st ! nat (pos st) \<noteq> posToStation st ! nat (pos ?st')
        then \<exists>row url. selected_station (station_list st) (posToStation st) (pos ?st') = Inr row \<and>
               col2 row = Inr url \<and> player ?st' = player st @ [Stop, SetMedia url, Play]
        else player ?st' = player st"
    using r(3) unfolding w r(2) .
  from r(1) p c show ?thesis by blast
qed

text \<open>
  The scenario of the specification: from position 99 a step \<open>+1\<close> moves to 100 and
  starts station B; from 100 a step \<open>+1\<close> moves to 101 and the player is not called, and
  a step \<open>-1\<close> moves back to 99 and starts station A. At the ends of the scale: from
  1020 a step \<open>+1\<close> stays and a step \<open>-1\<close> moves to 1019; from 0 a step \<open>-1\<close> stays and
  a step \<open>+1\<close> moves to 1.
\<close>

theorem encoder_step_transition_witness:
  "started decimal demo_playlist (demo_radio 99) \<and>
   list_all (\<lambda>row. 3 \<le> length row) demo_playlist \<and>
   MIN_POS \<le> pos (demo_radio 99) \<and> pos (demo_radio 99) \<le> MAX_POS \<and>
   fst (callback_rotary_encoder 1 (demo_radio 99)) = None \<and>
   pos (snd (callback_rotary_encoder 1 (demo_radio 99))) = 100 \<and>
   player (snd (callback_rotary_encoder 1 (demo_radio 99))) = [Stop, SetMedia ''B'', Play] \<and>
   fst (callback_rotary_encoder 1 (demo_radio 100)) = None \<and>
   pos (snd (callback_rotary_encoder 1 (demo_radio 100))) = 101 \<and>
   player (snd (callback_rotary_encoder 1 (demo_radio 100))) = [] \<and>
   fst (callback_rotary_encoder (- 1) (demo_radio 100)) = None \<and>
   pos (snd (callback_rotary_encoder (- 1) (demo_radio 100))) = 99 \<and>
   player (snd (callback_rotary_encoder (- 1) (demo_radio 100))) = [Stop, SetMedia ''A'', Play] \<and>
   pos (snd (callback_rotary_encoder 1 (demo_radio 1020))) = 1020 \<and>
   player (snd (callback_rotary_encoder 1 (demo_radio 1020))) = [] \<and>
   pos (snd (callback_rotary_encoder (- 1) (demo_radio 1020))) = 1019 \<and>
   player (snd (callback_rotary_encoder (- 1) (demo_radio 1020))) = [] \<and>
   pos (snd (callback_rotary_encoder (- 1) (demo_radio 0))) = 0 \<and>
   player (snd (callback_rotary_encoder (- 1) (demo_radio 0))) = [] \<and>
   pos (snd (callback_rotary_encoder 1 (demo_radio 0))) = 1 \<and>
   player (snd (callback_rotary_encoder 1 (demo_radio 0))) = []"
proof -
  have b: "\<And>p. 0 \<le> p \<Longrightarrow> p \<le> 1020 \<Longrightarrow> MIN_POS \<le> pos (demo_radio p) \<and> pos (demo_radio p) \<le> MAX_POS"
    by (simp add: demo_radio_def MIN_POS_def MAX_POS_def)
  have w: "(1::int) \<in> {- 1, 0, 1}" "(- 1::int) \<in> {- 1, 0, 1}" by simp_all
  have f: "\<And>p. pos (demo_radio p) = p" "\<And>p. posToStation (demo_radio p) = demo_cells"
    "\<And>p. station_list (demo_radio p) = demo_stations" "\<And>p. player (demo_radio p) = []"
    by (simp_all add: demo_radio_def)
  have n: "demo_cells ! 99 = 0" "demo_cells ! 100 = 1" "demo_cells ! 101 = 1"
    "demo_cells ! 1020 = - 1" "demo_cells ! 1019 = - 1" "demo_cells ! 0 = 0"
    "demo_cells ! Suc 0 = 0"
    by (simp_all add: demo_cells_nth)
  have u: "col2 \<lparr>col0 = 100, col1 = 199, more_cols = [''B'']\<rparr> = Inr ''B''"
    "col2 \<lparr>col0 = 0, col1 = 99, more_cols = [''A'']\<rparr> = Inr ''A''"
    by (simp_all add: col2_def getitem_def py_index_def)
  note step = encoder_step_transition [OF demo_started demo_three_columns]
  from step [of 99 1] b[of 99] w
  have s1: "fst (callback_rotary_encoder 1 (demo_radio 99)) = None \<and>
        pos (snd (callback_rotary_encoder 1 (demo_radio 99))) = 100 \<and>
        player (snd (callback_rotary_encoder 1 (demo_radio 99))) = [Stop, SetMedia ''B'', Play]"
    unfolding f by (auto simp: n MIN_POS_def MAX_POS_def demo_selected_100 u)
  from step [of 100 1] b[of 100] w
  have s2: "fst (callback_rotary_encoder 1 (demo_radio 100)) = None \<and>
        pos (snd (callback_rotary_encoder 1 (demo_radio 100))) = 101 \<and>
        player (snd (callback_rotary_encoder 1 (demo_radio 100))) = []"
    unfolding f by (auto simp: n MIN_POS_def MAX_POS_def)
  from step [of 100 "- 1"] b[of 100] w
  have s3: "fst (callback_rotary_encoder (- 1) (demo_radio 100)) = None \<and>
        pos (snd (callback_rotary_encoder (- 1) (demo_radio 100))) = 99 \<and>
        player (snd (callback_rotary_encoder (- 1) (demo_radio 100))) = [Stop, SetMedia ''A'', Play]"
    unfolding f by (auto simp: n MIN_POS_def MAX_POS_def demo_selected_99 u)
  from step [of 1020 1] b[of 1020] w
  have s4: "pos (snd (callback_rotary_encoder 1 (demo_radio 1020))) = 1020 \<and>
        player (snd (callback_rotary_encoder 1 (demo_radio 1020))) = []"
    unfolding f by (auto simp: n MIN_POS_def MAX_POS_def)
  from step [of 1020 "- 1"] b[of 1020] w
  have s5: "pos (snd (callback_rotary_encoder (- 1) (demo_radio 1020))) = 1019 \<and>
        player (snd (callback_rotary_encoder (- 1) (demo_radio 1020))) = []"
    unfolding f by (auto simp: n MIN_POS_def MAX_POS_def)
  from step [of 0 "- 1"] b[of 0] w
  have s6: "pos (snd (callback_rotary_encoder (- 1) (demo_radio 0))) = 0 \<and>
        player (snd (callback_rotary_encoder (- 1) (demo_radio 0))) = []"
    unfolding f by (auto simp: n MIN_POS_def MAX_POS_def)
  from step [of 0 1] b[of 0] w
  have s7: "pos (snd (callback_rotary_encoder 1 (demo_radio 0))) = 1 \<and>
        player (snd (callback_rotary_encoder 1 (demo_radio 0))) = []"
    unfolding f by (auto simp: n MIN_POS_def MAX_POS_def)
  from s1 s2 s3 s4 s5 s6 s7 show ?thesis
    using b[of 99] demo_started demo_three_columns by simp
qed

section \<open>The position stays on the scale\<close>

lemma callback_pos:
  "pos (snd (callback_rotary_encoder way st)) = pos st \<or>
   pos (snd (callback_rotary_encoder way st)) = pos st + effective_way (pos st) way"
  by (auto simp: callback_rotary_encoder_def Let_def write_position_files_def play_def
      split: sum.splits)

lemma callback_bounded:
  assumes "MIN_POS \<le> pos st" and "pos st \<le> MAX_POS" and "way \<in> {- 1, 0, 1}"
  shows "MIN_POS \<le> pos (snd (callback_rotary_encoder way st)) \<and>
         pos (snd (callback_rotary_encoder way st)) \<le> MAX_POS"
  using callback_pos[of way st] effective_way_bounds[OF assms] assms(1,2) by auto

lemma encoder_steps_bounded:
  assumes "set ways \<subseteq> {- 1, 0, 1}"
  shows "MIN_POS \<le> pos st \<Longrightarrow> pos st \<le> MAX_POS \<Longrightarrow>
         MIN_POS \<le> pos (snd (encoder_steps ways st)) \<and> pos (snd (encoder_steps ways st)) \<le> MAX_POS"
  using assms
proof (induction ways arbitrary: st)
  case Nil
  then show ?case by simp
next
  case (Cons way ways)
  obtain e st' where r: "callback_rotary_encoder way st = (e, st')" by (cases "callback_rotary_encoder way st")
  from Cons.prems have w: "way \<in> {- 1, 0, 1}" "set ways \<subseteq> {- 1, 0, 1}" by auto
  from callback_bounded[OF Cons.prems(1,2) w(1)] r have b: "MIN_POS \<le> pos st'" "pos st' \<le> MAX_POS"
    by simp_all
  show ?case
  proof (cases e)
    case None
    with r Cons.IH[OF b w(2)] show ?thesis by simp
  next
    case (Some x)
    with r b show ?thesis by simp
  qed
qed

text \<open>
  Claim C6. With \<open>pos\<close> in \<open>[MIN_POS, MAX_POS]\<close> and a step of \<open>-1\<close>, \<open>0\<close> or \<open>1\<close>, \<open>pos\<close> is
  in \<open>[MIN_POS, MAX_POS]\<close> after the callback, whatever the rest of the state is and
  whether or not the callback raises; and so it is after any run of such steps.
\<close>

theorem position_stays_bounded:
  assumes "MIN_POS \<le> pos st" and "pos st \<le> MAX_POS"
    and "way \<in> {- 1, 0, 1}" and "set ways \<subseteq> {- 1, 0, 1}"
  shows "MIN_POS \<le> pos (snd (callback_rotary_encoder way st)) \<and>
         pos (snd (callback_rotary_encoder way st)) \<le> MAX_POS \<and>
         MIN_POS \<le> pos (snd (encoder_steps ways st)) \<and>
         pos (snd (encoder_steps ways st)) \<le> MAX_POS"
  using callback_bounded[OF assms(1,2,3)] encoder_steps_bounded[OF assms(4,1,2)] by simp

theorem position_stays_bounded_witness:
  "MIN_POS \<le> pos (demo_radio 1020) \<and> pos (demo_radio 1020) \<le> MAX_POS \<and>
   MIN_POS \<le> pos (snd (callback_rotary_encoder 1 (demo_radio 1020))) \<and>
   pos (snd (callback_rotary_encoder 1 (demo_radio 1020))) \<le> MAX_POS \<and>
   MIN_POS \<le> pos (snd (encoder_steps [1, - 1, - 1] (demo_radio 1020))) \<and>
   pos (snd (encoder_steps [1, - 1, - 1] (demo_radio 1020))) \<le> MAX_POS"
proof -
  have b: "MIN_POS \<le> pos (demo_radio 1020)" "pos (demo_radio 1020) \<le> MAX_POS"
    by (simp_all add: demo_radio_def MIN_POS_def MAX_POS_def)
  have w: "(1::int) \<in> {- 1, 0, 1}" "set [1, - 1, - 1 :: int] \<subseteq> {- 1, 0, 1}" by simp_all
  from position_stays_bounded [OF b w] b show ?thesis by simp
qed

section \<open>The ends of the scale\<close>

lemma callback_no_move:
  assumes "effective_way (pos st) way = 0"
  shows "pos (snd (callback_rotary_encoder way st)) = pos st \<and>
         player (snd (callback_rotary_encoder way st)) = player st"
  using assms
  by (auto simp: callback_rotary_encoder_def Let_def write_position_files_def split: sum.splits)

lemma encoder_steps_no_move:
  assumes "effective_way p way = 0"
  shows "pos st = p \<Longrightarrow>
         pos (snd (encoder_steps (replicate n way) st)) = p \<and>
         player (snd (encoder_steps (replicate n way) st)) = player st"
proof (induction n arbitrary: st)
  case 0
  then show ?case by simp
next
  case (Suc n)
  obtain e st' where r: "callback_rotary_encoder way st = (e, st')" by (cases "callback_rotary_encoder way st")
  from callback_no_move[of st way] assms Suc.prems r have s: "pos st' = p" "player st' = player st"
    by simp_all
  show ?case
  proof (cases e)
    case None
    with r Suc.IH[OF s(1)] s(2) show ?thesis by simp
  next
    case (Some x)
    with r s show ?thesis by simp
  qed
qed

lemma callback_clamped_started:
  assumes "started to_int playlist st" and "effective_way (pos st) way = 0"
    and "MIN_POS \<le> pos st" and "pos st \<le> MAX_POS"
  shows "callback_rotary_encoder way st = (None, write_position_files (st\<lparr>pos := pos st\<rparr>))"
  using started_cells[OF assms(1,3,4)] assms(2)
  by (simp add: callback_rotary_encoder_def)

lemma encoder_steps_clamped_started:
  assumes "effective_way p way = 0" and "MIN_POS \<le> p" and "p \<le> MAX_POS"
  shows "started to_int playlist st \<Longrightarrow> pos st = p \<Longrightarrow>
         fst (encoder_steps (replicate n way) st) = None"
proof (induction n arbitrary: st)
  case 0
  then show ?case by simp
next
  case (Suc n)
  let ?st' = "write_position_files (st\<lparr>pos := pos st\<rparr>)"
  have r: "callback_rotary_encoder way st = (None, ?st')"
    using callback_clamped_started[OF Suc.prems(1)] assms Suc.prems(2) by simp
  have "started to_int playlist ?st'" "pos ?st' = p"
    using Suc.prems by (simp_all add: started_def write_position_files_def)
  from Suc.IH[OF this] r show ?case by simp
qed

text \<open>
  Claim C7. From \<open>pos = MAX_POS\<close>, any number \<open>n\<close> of steps \<open>+1\<close> leaves \<open>pos\<close> at
  \<open>MAX_POS\<close> and the player without a new call; from \<open>pos = MIN_POS\<close>, any number of
  steps \<open>-1\<close> leaves \<open>pos\<close> at \<open>MIN_POS\<close> and the player without a new call. After the
  start of the script none of these steps raises.
\<close>

theorem clamp_at_scale_ends:
  "(pos st = MAX_POS \<longrightarrow>
      pos (snd (encoder_steps (replicate n 1) st)) = MAX_POS \<and>
      player (snd (encoder_steps (replicate n 1) st)) = player st \<and>
      (started to_int playlist st \<longrightarrow> fst (encoder_steps (replicate n 1) st) = None)) \<and>
   (pos st = MIN_POS \<longrightarrow>
      pos (snd (encoder_steps (replicate n (- 1)) st)) = MIN_POS \<and>
      player (snd (encoder_steps (replicate n (- 1)) st)) = player st \<and>
      (started to_int playlist st \<longrightarrow> fst (encoder_steps (replicate n (- 1)) st) = None))"
proof (intro conjI impI)
  assume a: "pos st = MAX_POS"
  have e: "effective_way MAX_POS 1 = 0" by (simp add: effective_way_def)
  from encoder_steps_no_move[OF e a, of n]
  show "pos (snd (encoder_steps (replicate n 1) st)) = MAX_POS"
    "player (snd (encoder_steps (replicate n 1) st)) = player st" by simp_all
  assume s: "started to_int playlist st"
  have "MIN_POS \<le> MAX_POS" by (simp add: MIN_POS_def MAX_POS_def)
  from encoder_steps_clamped_started[OF e this _ s a]
  show "fst (encoder_steps (replicate n 1) st) = None" by simp
next
  assume a: "pos st = MIN_POS"
  have e: "effective_way MIN_POS (- 1) = 0" by (simp add: effective_way_def)
  from encoder_steps_no_move[OF e a, of n]
  show "pos (snd (encoder_steps (replicate n (- 1)) st)) = MIN_POS"
    "player (snd (encoder_steps (replicate n (- 1)) st)) = player st" by simp_all
  assume s: "started to_int playlist st"
  have "MIN_POS \<le> MAX_POS" by (simp add: MIN_POS_def MAX_POS_def)
  from encoder_steps_clamped_started[OF e _ this s a]
  show "fst (encoder_steps (replicate n (- 1)) st) = None" by simp
qed

theorem clamp_at_scale_ends_witness:
  "pos (demo_radio 1020) = MAX_POS \<and> started decimal demo_playlist (demo_radio 1020) \<and>
   fst (encoder_steps (replicate 3 1) (demo_radio 1020)) = None \<and>
   pos (snd (encoder_steps (replicate 3 1) (demo_radio 1020))) = MAX_POS \<and>
   player (snd (encoder_steps (replicate 3 1) (demo_radio 1020))) = player (demo_radio 1020) \<and>
   pos (demo_radio 0) = MIN_POS \<and> started decimal demo_playlist (demo_radio 0) \<and>
   fst (encoder_steps (replicate 3 (- 1)) (demo_radio 0)) = None \<and>
   pos (snd (encoder_steps (replicate 3 (- 1)) (demo_radio 0))) = MIN_POS \<and>
   player (snd (encoder_steps (replicate 3 (- 1)) (demo_radio 0))) = player (demo_radio 0)"
proof -
  have b: "pos (demo_radio 1020) = MAX_POS" "pos (demo_radio 0) = MIN_POS"
    by (simp_all add: demo_radio_def MIN_POS_def MAX_POS_def)
  from clamp_at_scale_ends [of "demo_radio 1020" 3 decimal demo_playlist]
       clamp_at_scale_ends [of "demo_radio 0" 3 decimal demo_playlist] b demo_started
  show ?thesis by simp
qed

section \<open>The position file\<close>

lemma of_char_digit_char: "d < 10 \<Longrightarrow> of_char (digit_char d) = 48 + d"
  by (simp add: digit_char_def)

lemma is_digit_digit_char: "d < 10 \<Longrightarrow> is_digit (digit_char d)"
  by (simp add: is_digit_def of_char_digit_char)

lemma digit_char_not_minus: "d < 10 \<Longrightarrow> digit_char d \<noteq> CHR ''-''"
proof
  assume d: "d < 10" and "digit_char d = CHR ''-''"
  then have "(of_char (digit_char d) :: nat) = of_char CHR ''-''" by simp
  with d show False by (simp add: of_char_digit_char)
qed

lemma digits_value_snoc:
  "digits_value acc (cs @ [c]) = 10 * digits_value acc cs + (of_char c - 48)"
  by (induction cs arbitrary: acc) auto

lemma digits_of_nonempty: "digits_of n \<noteq> []"
  by (subst digits_of.simps) simp

lemma digits_of_all_digits: "list_all is_digit (digits_of n)"
proof (induction n rule: digits_of.induct)
  case (1 n)
  show ?case
  proof (cases "n < 10")
    case True
    then show ?thesis by (subst digits_of.simps) (simp add: is_digit_digit_char)
  next
    case False
    with 1 show ?thesis by (subst digits_of.simps) (simp add: is_digit_digit_char)
  qed
qed

lemma digits_of_value: "digits_value 0 (digits_of n) = n"
proof (induction n rule: digits_of.induct)
  case (1 n)
  show ?case
  proof (cases "n < 10")
    case True
    then show ?thesis by (subst digits_of.simps) (simp add: of_char_digit_char)
  next
    case False
    with 1 show ?thesis
      by (subst digits_of.simps) (simp add: digits_value_snoc of_char_digit_char)
  qed
qed

lemma digits_of_hd: "\<exists>d cs. d < 10 \<and> digits_of n = digit_char d # cs"
proof (induction n rule: digits_of.induct)
  case (1 n)
  show ?case
  proof (cases "n < 10")
    case True
    then show ?thesis by (subst digits_of.simps) auto
  next
    case False
    with 1 obtain d cs where "d < 10" "digits_of (n div 10) = digit_char d # cs" by blast
    with False show ?thesis by (subst digits_of.simps) auto
  qed
qed

lemma decimal_nat_digits_of: "decimal_nat (digits_of n) = Some n"
  by (simp add: decimal_nat_def digits_of_nonempty digits_of_all_digits digits_of_value)

lemma decimal_str_int: "decimal (str_int i) = Some i"
proof (cases "i < 0")
  case True
  then show ?thesis by (simp add: str_int_def decimal_def decimal_nat_digits_of)
next
  case False
  obtain d cs where d: "d < 10" "digits_of (nat i) = digit_char d # cs"
    using digits_of_hd by blast
  have "decimal (digits_of (nat i)) = map_option int (decimal_nat (digits_of (nat i)))"
    using digit_char_not_minus[OF d(1)] by (simp add: decimal_def d(2))
  with False show ?thesis by (simp add: str_int_def decimal_nat_digits_of)
qed

lemma str_int_examples: "str_int 1020 = ''1020''" "str_int 0 = ''0''"
  by code_simp+

text \<open>
  Claim C8. In a state that the start of the script builds from a csv file whose rows
  have the three required columns, with \<open>pos\<close> in \<open>[MIN_POS, MAX_POS]\<close>, every call of the
  callback with a step of \<open>-1\<close>, \<open>0\<close> or \<open>1\<close> ends with the position file holding the text
  that \<open>write_position_files\<close> writes for the position after the step, whether the
  position moved or not.
\<close>

theorem position_written_after_step:
  assumes "started to_int playlist st"
    and "list_all (\<lambda>row. 3 \<le> length row) playlist"
    and "MIN_POS \<le> pos st" and "pos st \<le> MAX_POS"
    and "way \<in> {- 1, 0, 1}"
  shows "\<exists>st'. callback_rotary_encoder way st = (None, st') \<and>
           position_py st' =
             ''#!/usr/bin/env python\<newline>\<newline>'' @ ''start_position = '' @ str_int (pos st')"
proof -
  from callback_started[OF assms] obtain st1 where
    r: "callback_rotary_encoder way st = (None, write_position_files st1)"
    by blast
  have "position_py (write_position_files st1) =
      ''#!/usr/bin/env python\<newline>\<newline>'' @ ''start_position = '' @ str_int (pos (write_position_files st1))"
    by (simp add: write_position_files_def)
  with r show ?thesis by blast
qed

text \<open>At the upper end of the scale a step \<open>+1\<close> does not move, and the file is written.\<close>

theorem position_written_after_step_witness:
  "started decimal demo_playlist (demo_radio 1020) \<and>
   list_all (\<lambda>row. 3 \<le> length row) demo_playlist \<and>
   MIN_POS \<le> pos (demo_radio 1020) \<and> pos (demo_radio 1020) \<le> MAX_POS \<and>
   fst (callback_rotary_encoder 1 (demo_radio 1020)) = None \<and>
   pos (snd (callback_rotary_encoder 1 (demo_radio 1020))) = 1020 \<and>
   position_py (snd (callback_rotary_encoder 1 (demo_radio 1020))) =
     ''#!/usr/bin/env python\<newline>\<newline>start_position = 1020''"
proof -
  have b: "MIN_POS \<le> pos (demo_radio 1020)" "pos (demo_radio 1020) \<le> MAX_POS"
    by (simp_all add: demo_radio_def MIN_POS_def MAX_POS_def)
  have w: "(1::int) \<in> {- 1, 0, 1}" by simp
  have p: "pos (snd (callback_rotary_encoder 1 (demo_radio 1020))) = 1020"
    using callback_no_move[of "demo_radio 1020" 1]
    by (simp add: demo_radio_def effective_way_def MAX_POS_def)
  from position_written_after_step [OF demo_started demo_three_columns b w]
  have "fst (callback_rotary_encoder 1 (demo_radio 1020)) = None \<and>
     position_py (snd (callback_rotary_encoder 1 (demo_radio 1020))) =
     ''#!/usr/bin/env python\<newline>\<newline>'' @ ''start_position = '' @
       str_int (pos (snd (callback_rotary_encoder 1 (demo_radio 1020))))"
    by auto
  then show ?thesis
    unfolding p using b p demo_started demo_three_columns by (simp add: str_int_examples)
qed

text \<open>
  Claim C9. Whatever the position file held before, after \<open>write_position_files\<close> it
  holds one assignment, and reading it back gives the position that was written. This
  holds for every integer, not only for those of \<open>[MIN_POS, MAX_POS]\<close>.
\<close>

theorem position_round_trip: "start_position (position_py (write_position_files st)) = Some (pos st)"
  by (simp add: start_position_def write_position_files_def decimal_str_int)

theorem position_round_trip_witness:
  "position_py (write_position_files (demo_radio 1020)) =
     ''#!/usr/bin/env python\<newline>\<newline>start_position = 1020'' \<and>
   start_position ''#!/usr/bin/env python\<newline>\<newline>start_position = 1020'' = Some 1020"
proof -
  have t: "position_py (write_position_files (demo_radio 1020)) =
     ''#!/usr/bin/env python\<newline>\<newline>start_position = 1020''"
    by (simp add: write_position_files_def demo_radio_def str_int_examples)
  from position_round_trip [of "demo_radio 1020"] show ?thesis
    unfolding t by (simp add: demo_radio_def)
qed

end
